theory Spec2Isabelle
  imports Complex_Main
begin

unbundle bit_operations_syntax

section \<open>Common data\<close>

text \<open>
  Python exceptions that the modelled code can raise. Python floats are idealised as
  \<^typ>\<open>real\<close> throughout: rounding is not modelled.
\<close>

datatype error = IndexError | ZeroDivisionError | ValueError | NameError

text \<open>The pen command of a tuple of \<open>STEPS\<close>: the strings \<open>'PU'\<close> and \<open>'PD'\<close>.\<close>

datatype pen = PU | PD

text \<open>An entry of \<open>STEPS\<close> is the tuple \<open>(kind, x, y)\<close> with integer coordinates.\<close>

type_synonym rawcmd = "pen \<times> int \<times> int"

text \<open>A line \<open>"PU, x, y"\<close> or \<open>"PD, x, y"\<close> of the interpolated file.\<close>

type_synonym waypoint = "pen \<times> real \<times> real"

section \<open>Path resampler (main.py, \<open>linspace\<close> and the interpolation loop of \<open>startup\<close>)\<close>

text \<open>
  \<open>linspace(a, b, n)\<close>: \<open>diff = (b-a)/(n-1)\<close>, then \<open>[diff*i+a for i in range(n-1)]\<close>.
  The division raises for \<open>n = 1\<close>.
\<close>

definition linspace :: "real \<Rightarrow> real \<Rightarrow> int \<Rightarrow> error + real list" where
  "linspace a b n =
     (if n = 1 then Inl ZeroDivisionError
      else Inr (map (\<lambda>i. ((b - a) / of_int (n - 1)) * of_int i + a) [0..n - 2]))"

definition N :: int where
  "N = 3"

definition max_dist :: real where
  "max_dist = 10"

text \<open>\<open>((nextstep[1]-coords[1])**2 + (nextstep[2]-coords[2])**2)**(1/2)\<close>\<close>

fun next_dist :: "rawcmd \<Rightarrow> rawcmd \<Rightarrow> real" where
  "next_dist (k, x, y) (k', x', y') = sqrt (of_int ((x' - x)\<^sup>2 + (y' - y)\<^sup>2))"

text \<open>\<open>STEPS[i]\<close> for a non-negative index.\<close>

definition get :: "'a list \<Rightarrow> nat \<Rightarrow> error + 'a" where
  "get xs i = (if i < length xs then Inr (xs ! i) else Inl IndexError)"

text \<open>
  The two loops over \<open>zip(xA, yA)\<close>: after a \<open>'PU'\<close> point only the first line is
  written as \<open>PU\<close>, the others as \<open>PD\<close>; after a \<open>'PD'\<close> point every line is \<open>PD\<close>.
\<close>

fun write_PU :: "(real \<times> real) list \<Rightarrow> waypoint list" where
  "write_PU [] = []"
| "write_PU ((i, j) # ps) = (PU, i, j) # map (\<lambda>(i, j). (PD, i, j)) ps"

definition write_PD :: "(real \<times> real) list \<Rightarrow> waypoint list" where
  "write_PD ps = map (\<lambda>(i, j). (PD, i, j)) ps"

definition interpolate :: "rawcmd \<Rightarrow> rawcmd \<Rightarrow> error + (real \<times> real) list" where
  "interpolate coords nextstep =
     (case linspace (of_int (fst (snd coords))) (of_int (fst (snd nextstep))) N of
        Inl e \<Rightarrow> Inl e
      | Inr xA \<Rightarrow>
          (case linspace (of_int (snd (snd coords))) (of_int (snd (snd nextstep))) N of
             Inl e \<Rightarrow> Inl e
           | Inr yA \<Rightarrow> Inr (zip xA yA)))"

text \<open>The point itself, written unchanged.\<close>

fun unchanged :: "rawcmd \<Rightarrow> waypoint" where
  "unchanged (k, x, y) = (k, of_int x, of_int y)"

text \<open>
  One iteration of \<open>for idx, coords in enumerate(STEPS)\<close>: the lines it writes, or the
  exception it raises. The \<open>'PU'\<close> branch checks \<open>idx+1 < len(STEPS)\<close>; the \<open>'PD'\<close>
  branch reads \<open>STEPS[idx+1]\<close> without a check. The parser appends only \<open>'PU'\<close> and
  \<open>'PD'\<close> tuples to \<open>STEPS\<close>, so the final \<open>else\<close> (which only prints) has no case here.
\<close>

definition interp_body :: "rawcmd list \<Rightarrow> nat \<Rightarrow> rawcmd \<Rightarrow> error + waypoint list" where
  "interp_body STEPS idx coords =
     (case fst coords of
        PU \<Rightarrow>
          if idx + 1 < length STEPS then
            (let nextstep = STEPS ! (idx + 1) in
             if next_dist coords nextstep > max_dist then
               (case interpolate coords nextstep of
                  Inl e \<Rightarrow> Inl e
                | Inr ps \<Rightarrow> Inr (write_PU ps))
             else Inr [unchanged coords])
          else Inr [unchanged coords]
      | PD \<Rightarrow>
          (case get STEPS (idx + 1) of
             Inl e \<Rightarrow> Inl e
           | Inr nextstep \<Rightarrow>
               if fst nextstep = PD then
                 if next_dist coords nextstep > max_dist then
                   (case interpolate coords nextstep of
                      Inl e \<Rightarrow> Inl e
                    | Inr ps \<Rightarrow> Inr (write_PD ps))
                 else Inr [unchanged coords]
               else Inr [unchanged coords]))"

text \<open>
  The loop, with the lines written so far as accumulator; an exception ends it.
  The counter \<open>elements\<close> is the number of lines written.
\<close>

fun interp_loop :: "rawcmd list \<Rightarrow> (nat \<times> rawcmd) list \<Rightarrow> waypoint list \<Rightarrow> error + waypoint list" where
  "interp_loop STEPS [] out = Inr out"
| "interp_loop STEPS ((idx, coords) # rest) out =
     (case interp_body STEPS idx coords of
        Inl e \<Rightarrow> Inl e
      | Inr ws \<Rightarrow> interp_loop STEPS rest (out @ ws))"

definition resample :: "rawcmd list \<Rightarrow> error + waypoint list" where
  "resample STEPS = interp_loop STEPS (enumerate 0 STEPS) []"


text \<open>
  The same loop by recursion on the list: what one iteration writes depends on the
  point and on its successor only. \<open>emit\<close> is \<open>interp_body\<close> on the list of these two.
\<close>

definition emit :: "rawcmd \<Rightarrow> rawcmd option \<Rightarrow> error + waypoint list" where
  "emit coords nxt = interp_body (coords # (case nxt of None \<Rightarrow> [] | Some n \<Rightarrow> [n])) 0 coords"

fun resample_rec :: "rawcmd list \<Rightarrow> error + waypoint list" where
  "resample_rec [] = Inr []"
| "resample_rec [c] = emit c None"
| "resample_rec (c # c' # cs) =
     (case emit c (Some c') of
        Inl e \<Rightarrow> Inl e
      | Inr ws \<Rightarrow> (case resample_rec (c' # cs) of Inl e \<Rightarrow> Inl e | Inr out \<Rightarrow> Inr (ws @ out)))"

text \<open>Euclidean distance between two written points.\<close>

fun wdist :: "waypoint \<Rightarrow> waypoint \<Rightarrow> real" where
  "wdist (k, x, y) (k', x', y') = sqrt ((x' - x)\<^sup>2 + (y' - y)\<^sup>2)"

text \<open>
  For \<open>N = 3\<close>, \<open>linspace\<close> gives the point itself and the midpoint; \<open>mid\<close> is the
  line written for the midpoint (always as \<open>PD\<close>).
\<close>

definition mid :: "rawcmd \<Rightarrow> rawcmd \<Rightarrow> waypoint" where
  "mid c c' =
     (PD, (of_int (fst (snd c')) - of_int (fst (snd c))) / 2 + of_int (fst (snd c)),
          (of_int (snd (snd c')) - of_int (snd (snd c))) / 2 + of_int (snd (snd c)))"

text \<open>
  The distance bound on two consecutive lines of the output: a line written as \<open>PD\<close> is
  at most \<open>d\<close> away from the line before it. This covers two consecutive \<open>PD\<close> lines
  and the approach from a \<open>PU\<close> line to a \<open>PD\<close> line.
\<close>

definition within_dist :: "real \<Rightarrow> waypoint \<Rightarrow> waypoint \<Rightarrow> bool" where
  "within_dist d w w' \<longleftrightarrow> (fst w' = PD \<longrightarrow> wdist w w' \<le> d)"

text \<open>
  The lines of \<open>out\<close> at which the pen state differs from the line before.
\<close>

definition change_points :: "waypoint list \<Rightarrow> waypoint list" where
  "change_points out = map snd (filter (\<lambda>(w, w'). fst w \<noteq> fst w') (zip out (tl out)))"

text \<open>Two consecutive \<open>PD\<close> lines are at most \<open>d\<close> apart.\<close>

definition pd_pair_within :: "real \<Rightarrow> waypoint \<Rightarrow> waypoint \<Rightarrow> bool" where
  "pd_pair_within d w w' \<longleftrightarrow> (fst w = PD \<and> fst w' = PD \<longrightarrow> wdist w w' \<le> d)"

section \<open>Motion controller driver (stepperdriver.py, class \<open>StepperDriver\<close>)\<close>

text \<open>
  \<open>bytearray(4)\<close>: the four bytes of a datagram. Every value the modelled methods store
  is masked into \<open>0..255\<close> by the source.
\<close>

type_synonym buf = "int \<times> int \<times> int \<times> int"

text \<open>
  The fields of the driver object that the methods use, the text printed, and the
  device behind \<open>spi\<close>: the datagrams sent so far and the payload held by each register.
\<close>

record driver =
  TX_buf :: buf
  RX_buf :: buf
  console :: "string list"
  sent :: "buf list"
  registers :: "int \<Rightarrow> int \<times> int \<times> int"

text \<open>Register addresses, as assigned in \<open>__init__\<close>.\<close>

definition X_TARGET :: int where
  "X_TARGET = 0"

definition A_MAX :: int where
  "A_MAX = 6"

definition PMUL_PDIV :: int where
  "PMUL_PDIV = 9"

definition RAMP_MODE :: int where
  "RAMP_MODE = 10"

text \<open>
  Modelled from the spec: the chip behind \<open>spi.send_recv\<close> is hardware, not code of the
  repository. Byte 0 of a datagram is \<open>(register_address << 1) | access_bit\<close> (0 = write,
  1 = read), bytes 1 to 3 are the payload. A write stores the payload in the register;
  on a read the register's payload overwrites bytes 1 to 3 of the receive buffer.
\<close>

definition send_recv :: "driver \<Rightarrow> driver" where
  "send_recv d =
     (case TX_buf d of (b0, b1, b2, b3) \<Rightarrow>
        if b0 AND 1 = 0 then
          d\<lparr>sent := sent d @ [TX_buf d], registers := (registers d)(drop_bit 1 b0 := (b1, b2, b3))\<rparr>
        else
          (case registers d (drop_bit 1 b0) of (r1, r2, r3) \<Rightarrow>
             d\<lparr>sent := sent d @ [TX_buf d], RX_buf := (fst (RX_buf d), r1, r2, r3)\<rparr>))"

definition print :: "string \<Rightarrow> driver \<Rightarrow> driver" where
  "print msg d = d\<lparr>console := console d @ [msg]\<rparr>"

text \<open>
  \<open>set_mode\<close>: four recognised strings, each sending one datagram to \<open>RAMP_MODE\<close>;
  the final \<open>else\<close> only prints. No branch raises.
\<close>

definition set_mode :: "string \<Rightarrow> driver \<Rightarrow> error + driver" where
  "set_mode mode d =
     (if mode = ''ramp'' then
        Inr (print ''Setting to ramp mode.''
          (send_recv (d\<lparr>TX_buf := (push_bit 1 RAMP_MODE OR 0, 0, 4, 0)\<rparr>)))
      else if mode = ''hold'' then
        Inr (print ''Setting to hold mode.''
          (send_recv (d\<lparr>TX_buf := (push_bit 1 RAMP_MODE OR 0, 0, 4, 3)\<rparr>)))
      else if mode = ''velocity'' then
        Inr (print ''Setting to velocity mode.''
          (send_recv (d\<lparr>TX_buf := (push_bit 1 RAMP_MODE OR 0, 0, 4, 2)\<rparr>)))
      else if mode = ''soft'' then
        Inr (print ''Setting to soft mode.''
          (send_recv (d\<lparr>TX_buf := (push_bit 1 RAMP_MODE OR 0, 0, 4, 1)\<rparr>)))
      else Inr (print ''Invalid mode.'' d))"

subsection \<open>\<open>set_accel\<close>\<close>

text \<open>\<open>2**k\<close> for an integer \<open>k\<close>: a float for negative \<open>k\<close>.\<close>

definition pow2 :: "int \<Rightarrow> real" where
  "pow2 k = (if 0 \<le> k then 2 ^ nat k else 1 / 2 ^ nat (- k))"

text \<open>\<open>q = (pmul/max_accel)*2**(4-pdiv)\<close> and the test \<open>q>0.95 and q<1\<close>.\<close>

definition q :: "int \<Rightarrow> int \<Rightarrow> int \<Rightarrow> real" where
  "q max_accel pmul pdiv = (of_int pmul / of_int max_accel) * pow2 (4 - pdiv)"

definition valid_pair :: "int \<Rightarrow> int \<Rightarrow> int \<Rightarrow> bool" where
  "valid_pair max_accel pmul pdiv \<longleftrightarrow> q max_accel pmul pdiv > 0.95 \<and> q max_accel pmul pdiv < 1"

text \<open>
  The inner loop \<open>while pdiv<len(pd)\<close>, from the current \<open>pdiv\<close>: the final \<open>pdiv\<close> and
  the flag \<open>valid\<close>.
\<close>

function pdiv_loop :: "int \<Rightarrow> int \<Rightarrow> int \<Rightarrow> int \<times> int" where
  "pdiv_loop max_accel pmul pdiv =
     (if pdiv < 14 then
        (if valid_pair max_accel pmul pdiv then (pdiv, 1)
         else pdiv_loop max_accel pmul (pdiv + 1))
      else (pdiv, 0))"
  by pat_completeness auto
termination
  by (relation "measure (\<lambda>(max_accel, pmul, pdiv). nat (14 - pdiv))") auto

declare pdiv_loop.simps [simp del]

text \<open>
  The outer loop \<open>while pmul<len(pm)+128\<close>: the final \<open>pmul\<close>, \<open>pdiv\<close> and \<open>valid\<close>.
  \<open>pdiv\<close> is assigned by the first pass, which always runs (\<open>128 < 256\<close>).
\<close>

function pmul_loop :: "int \<Rightarrow> int \<Rightarrow> int \<Rightarrow> int \<times> int \<times> int" where
  "pmul_loop max_accel pmul pdiv =
     (if pmul < 128 + 128 then
        (case pdiv_loop max_accel pmul 0 of
           (pdiv', valid) \<Rightarrow>
             if valid = 1 then (pmul, pdiv', valid)
             else pmul_loop max_accel (pmul + 1) pdiv')
      else (pmul, pdiv, 0))"
  by pat_completeness auto
termination
  by (relation "measure (\<lambda>(max_accel, pmul, pdiv). nat (256 - pmul))") auto

declare pmul_loop.simps [simp del]

text \<open>
  \<open>set_accel\<close>: the search, then one datagram to \<open>PMUL_PDIV\<close> and one to \<open>A_MAX\<close>.
  The division \<open>pmul/max_accel\<close> raises for \<open>max_accel = 0\<close>. There is no branch on
  \<open>valid\<close> after the loops.
\<close>

definition set_accel :: "int \<Rightarrow> driver \<Rightarrow> error + driver" where
  "set_accel max_accel d =
     (if max_accel = 0 then Inl ZeroDivisionError
      else
        (case pmul_loop max_accel 128 0 of
           (pmul, pdiv, valid) \<Rightarrow>
             let d1 = send_recv (d\<lparr>TX_buf :=
                        (push_bit 1 PMUL_PDIV OR 0, 0, 128 OR (pmul AND 127), pdiv AND 15)\<rparr>);
                 d2 = send_recv (d1\<lparr>TX_buf :=
                        (push_bit 1 A_MAX OR 0, 0, drop_bit 8 max_accel AND 7, max_accel AND 255)\<rparr>)
             in Inr d2))"

text \<open>
  The first pair of the search order (\<open>pmul\<close> ascending from 128, for each \<open>pmul\<close>
  \<open>pdiv\<close> ascending from 0) that passes the test.
\<close>

definition in_range :: "int \<Rightarrow> int \<Rightarrow> bool" where
  "in_range pmul pdiv \<longleftrightarrow> 128 \<le> pmul \<and> pmul \<le> 255 \<and> 0 \<le> pdiv \<and> pdiv \<le> 13"

definition first_valid :: "int \<Rightarrow> int \<Rightarrow> int \<Rightarrow> bool" where
  "first_valid max_accel pmul pdiv \<longleftrightarrow>
     in_range pmul pdiv \<and> valid_pair max_accel pmul pdiv \<and>
     (\<forall>pm pd. in_range pm pd \<and> valid_pair max_accel pm pd \<longrightarrow> pmul < pm \<or> (pmul = pm \<and> pdiv \<le> pd))"

subsection \<open>Target position\<close>

text \<open>\<open>int(x)\<close> on a float: truncation towards zero.\<close>

definition py_int :: "real \<Rightarrow> int" where
  "py_int x = (if 0 \<le> x then \<lfloor>x\<rfloor> else \<lceil>x\<rceil>)"

text \<open>
  \<open>set_target_pos\<close>: radians to microsteps, truncated, the low 24 bits sent to
  \<open>X_TARGET\<close> big-endian.
\<close>

definition set_target_pos :: "real \<Rightarrow> driver \<Rightarrow> driver" where
  "set_target_pos target_pos d =
     (let target_pos = target_pos * ((8 * 48) / (2 * pi));
          target_pos = py_int target_pos
      in send_recv (d\<lparr>TX_buf :=
           (push_bit 1 X_TARGET OR 0,
            drop_bit 16 target_pos AND 255,
            drop_bit 8 target_pos AND 255,
            target_pos AND 255)\<rparr>))"

text \<open>
  \<open>get_target_pos\<close>: a read of \<open>X_TARGET\<close>; bytes 1 to 3 of the receive buffer are read
  as an unsigned number of microsteps and converted to radians.
\<close>

definition get_target_pos :: "driver \<Rightarrow> real \<times> driver" where
  "get_target_pos d =
     (let d' = send_recv (d\<lparr>TX_buf := (push_bit 1 X_TARGET OR 1, 0, 0, 0)\<rparr>)
      in case RX_buf d' of (r0, r1, r2, r3) \<Rightarrow>
           (of_int (push_bit 16 r1 OR push_bit 8 r2 OR r3) * ((2 * pi) / (8 * 48)), d'))"

text \<open>A driver object with zeroed buffers and registers, before any transaction.\<close>

definition drv0 :: driver where
  "drv0 = \<lparr>TX_buf = (0, 0, 0, 0), RX_buf = (0, 0, 0, 0), console = [], sent = [],
           registers = (\<lambda>r. (0, 0, 0))\<rparr>"

section \<open>Kinematics solver (main.py, \<open>g\<close>, \<open>dg_dtheta\<close>, \<open>NewtonRaphson\<close> and the solve loop of \<open>startup\<close>)\<close>

text \<open>A 2x1 array as a pair, a 2x2 array as the pair of its rows.\<close>

type_synonym vec = "real \<times> real"

type_synonym mat = "(real \<times> real) \<times> (real \<times> real)"

text \<open>The array \<open>f\<close> computed inside \<open>g\<close>: the position reached with the angles \<open>theta\<close>.\<close>

definition f :: "vec \<Rightarrow> vec" where
  "f theta =
     (((4 / pi) * snd theta) * cos (fst theta / 3),
      ((4 / pi) * snd theta) * sin (fst theta / 3))"

text \<open>\<open>g(x, theta)\<close> returns \<open>x - f\<close>.\<close>

definition g :: "vec \<Rightarrow> vec \<Rightarrow> vec" where
  "g x theta = (fst x - fst (f theta), snd x - snd (f theta))"

definition dg_dtheta :: "vec \<Rightarrow> mat" where
  "dg_dtheta theta =
     (((1 / 3) * ((4 / pi) * snd theta) * sin (fst theta / 3), (- 4 / pi) * cos (fst theta / 3)),
      ((- 1 / 3) * ((4 / pi) * snd theta) * cos (fst theta / 3), (- 4 / pi) * sin (fst theta / 3)))"

text \<open>
  \<open>np.linalg.inv\<close> on a 2x2 array, which raises for a singular matrix, and \<open>np.dot\<close>
  of a 2x2 array with a 2x1 array.
\<close>

fun inv :: "mat \<Rightarrow> error + mat" where
  "inv ((a, b), (c, d)) =
     (if a * d - b * c = 0 then Inl ValueError
      else Inr ((d / (a * d - b * c), - b / (a * d - b * c)),
                (- c / (a * d - b * c), a / (a * d - b * c))))"

fun dot :: "mat \<Rightarrow> vec \<Rightarrow> vec" where
  "dot ((a, b), (c, d)) (v, w) = (a * v + b * w, c * v + d * w)"

text \<open>
  \<open>NewtonRaphson\<close>: the loop \<open>while end_NR==0\<close> has no iteration bound, so the result is
  \<open>None\<close> when it runs forever.
\<close>

partial_function (option) NewtonRaphson ::
  "(vec \<Rightarrow> vec) \<Rightarrow> (vec \<Rightarrow> mat) \<Rightarrow> vec \<Rightarrow> real \<Rightarrow> (error + vec) option" where
  "NewtonRaphson fcn jacobian theta_n thresh =
     (if \<bar>fst (fcn theta_n)\<bar> \<le> thresh \<and> \<bar>snd (fcn theta_n)\<bar> \<le> thresh then Some (Inr theta_n)
      else
        (case inv (jacobian theta_n) of
           Inl e \<Rightarrow> Some (Inl e)
         | Inr J \<Rightarrow>
             NewtonRaphson fcn jacobian
               (fst theta_n - fst (dot J (fcn theta_n)), snd theta_n - snd (dot J (fcn theta_n)))
               thresh))"

text \<open>\<open>a % b\<close> on floats, for \<open>b > 0\<close>.\<close>

definition py_mod :: "real \<Rightarrow> real \<Rightarrow> real" where
  "py_mod a b = a - b * of_int \<lfloor>a / b\<rfloor>"

text \<open>A line of the file \<open>Send.txt\<close>: \<open>loc, th1, th2, xS, yS, th\<close>.\<close>

record motioncmd =
  loc :: pen
  th1 :: real
  th2 :: real
  xS :: real
  yS :: real
  th :: real










section \<open>Motion coordination (main.py, generator \<open>task_main\<close>)\<close>

text \<open>
  What one pass of the loop does to the pen, the motors, the serial line and the console,
  in order. \<open>Arrived m\<close> is a call of \<open>arrived\<close> on motor \<open>m\<close>; its result is an input
  of the pass.
\<close>

datatype motor = Motor1 | Motor2

datatype action =
    Print string
  | Readline
  | Uart_write real real real
  | Pen_up
  | Pen_down
  | Set_target_pos motor real
  | Arrived motor
  | Close

definition S0_INIT :: int where
  "S0_INIT = 0"

definition S1_PLOT :: int where
  "S1_PLOT = 1"

definition S2_DONE :: int where
  "S2_DONE = 2"

text \<open>
  The local variables of the generator, the share \<open>elements\<close>, the lines of \<open>Send.txt\<close>
  (\<open>send_file\<close>) and those not yet read (\<open>send\<close>), and the actions performed so far.
  \<open>pen_CMD\<close> is \<open>None\<close> until the first line is read.
\<close>

record task =
  state :: int
  step :: int
  pen_is_up :: bool
  pos_tolerance :: real
  update :: bool
  send :: "motioncmd list"
  pen_CMD :: "pen option"
  m1_CMD :: real
  m2_CMD :: real
  printed :: bool
  elements :: int
  send_file :: "motioncmd list"
  trace :: "action list"

definition act :: "action list \<Rightarrow> task \<Rightarrow> task" where
  "act as s = s\<lparr>trace := trace s @ as\<rparr>"

text \<open>
  The block under \<open>if update == True\<close>: one line is read and split into six fields.
  At the end of the file \<open>readline\<close> gives the empty string and the unpacking raises.
\<close>

definition fetch :: "task \<Rightarrow> error + task" where
  "fetch s =
     (case send s of
        [] \<Rightarrow> Inl ValueError
      | c # rest \<Rightarrow>
          Inr (act [Print ''Send coordinate updated'', Readline, Uart_write (xS c) (yS c) (th c)]
            (s\<lparr>update := False, send := rest, pen_CMD := Some (loc c),
               m1_CMD := th1 c, m2_CMD := th2 c\<rparr>)))"

text \<open>
  \<open>if motor1.arrived(pos_tolerance) and motor2.arrived(pos_tolerance)\<close>: the second
  call is made only when the first returns true.
\<close>

definition advance :: "bool \<times> bool \<Rightarrow> task \<Rightarrow> task" where
  "advance arr s =
     (if fst arr then
        (if snd arr then (act [Arrived Motor1, Arrived Motor2] s)\<lparr>step := step s + 1, update := True\<rparr>
         else act [Arrived Motor1, Arrived Motor2] s)
      else act [Arrived Motor1] s)"

text \<open>
  The chain \<open>if pen_CMD == 'PU' and pen_is_up == False ... elif ...\<close>. The branch for
  \<open>'PD'\<close> with the pen up does not call \<open>arrived\<close> and assigns neither \<open>step\<close> nor
  \<open>update\<close>.
\<close>

definition dispatch :: "bool \<times> bool \<Rightarrow> task \<Rightarrow> error + task" where
  "dispatch arr s =
     (case pen_CMD s of
        None \<Rightarrow> Inl NameError
      | Some c \<Rightarrow>
          if c = PU \<and> pen_is_up s = False then
            Inr (advance arr
              (act [Pen_up, Set_target_pos Motor1 (m1_CMD s), Set_target_pos Motor2 (m2_CMD s)]
                (s\<lparr>pen_is_up := True\<rparr>)))
          else if c = PU \<and> pen_is_up s = True then
            Inr (advance arr
              (act [Set_target_pos Motor1 (m1_CMD s), Set_target_pos Motor2 (m2_CMD s)] s))
          else if c = PD \<and> pen_is_up s = True then
            Inr (act [Pen_down, Set_target_pos Motor1 (m1_CMD s), Set_target_pos Motor2 (m2_CMD s)]
              (s\<lparr>pen_is_up := False\<rparr>))
          else if c = PD \<and> pen_is_up s = False then
            Inr (advance arr
              (act [Set_target_pos Motor1 (m1_CMD s), Set_target_pos Motor2 (m2_CMD s)] s))
          else Inr s)"

text \<open>
  One pass of \<open>while True\<close>, up to \<open>yield state\<close>. \<open>arr\<close> is what \<open>motor1.arrived\<close> and
  \<open>motor2.arrived\<close> return during this pass.
\<close>

definition task_main :: "bool \<times> bool \<Rightarrow> task \<Rightarrow> error + task" where
  "task_main arr s =
     (if state s = S0_INIT then
        Inr (s\<lparr>step := 0, pen_is_up := False, pos_tolerance := 0, update := True,
               send := send_file s, state := S1_PLOT\<rparr>)
      else if state s = S1_PLOT then
        (if step s < elements s - 1 then
           (if update s = True then
              (case fetch s of Inl e \<Rightarrow> Inl e | Inr s' \<Rightarrow> dispatch arr s')
            else dispatch arr s)
         else if step s = elements s - 1 then
           Inr ((act [Print ''All done!'', Pen_up, Set_target_pos Motor1 (3 * 4 * pi / 9),
                      Set_target_pos Motor2 (105 * pi / 4), Close] s)
                 \<lparr>state := S2_DONE, printed := False\<rparr>)
         else Inr s)
      else if state s = S2_DONE then
        (if printed s = False then Inr ((act [Print ''Completed''] s)\<lparr>printed := True\<rparr>)
         else Inr s)
      else Inl ValueError)"

text \<open>Successive passes, one per entry of the list of arrival results.\<close>

fun run :: "(bool \<times> bool) list \<Rightarrow> task \<Rightarrow> error + task" where
  "run [] s = Inr s"
| "run (arr # arrs) s = (case task_main arr s of Inl e \<Rightarrow> Inl e | Inr s' \<Rightarrow> run arrs s')"

text \<open>
  The scenario of the two-line file: the line for pen down at \<open>(0, 0)\<close> and the line for
  pen up at \<open>(1, 1)\<close>, with the angles that reach these points.
\<close>

definition cmd_down :: motioncmd where
  "cmd_down = \<lparr>loc = PD, th1 = 0, th2 = 0, xS = 0, yS = 0, th = 0\<rparr>"

definition cmd_up :: motioncmd where
  "cmd_up = \<lparr>loc = PU, th1 = 3 * pi / 4, th2 = sqrt 2 * pi / 4, xS = 1, yS = 1, th = pi / 4\<rparr>"

text \<open>
  The generator before its first pass: \<open>state = S0_INIT\<close>, the share \<open>elements\<close> holds
  the number of lines of the file, nothing done yet. No other local is assigned; the
  values given here for them are overwritten by \<open>S0_INIT\<close> or by the first assignment
  of the source before they are read.
\<close>

definition task_start :: "motioncmd list \<Rightarrow> task" where
  "task_start file =
     \<lparr>state = S0_INIT, step = 0, pen_is_up = False, pos_tolerance = 0, update = False,
      send = [], pen_CMD = None, m1_CMD = 0, m2_CMD = 0, printed = False,
      elements = int (length file), send_file = file, trace = []\<rparr>"


section \<open>Properties of the path resampler\<close>

lemma linspace_N: "linspace a b N = Inr [a, (b - a) / 2 + a]"
  by (simp add: linspace_def N_def upto.simps)

lemma interpolate_eq:
  "interpolate (k, x, y) (k', x', y') =
     Inr [(of_int x, of_int y), ((of_int x' - of_int x) / 2 + of_int x, (of_int y' - of_int y) / 2 + of_int y)]"
  by (simp add: interpolate_def linspace_N)

lemma sqrt_gt_10: "0 \<le> r \<Longrightarrow> sqrt r > 10 \<longleftrightarrow> r > 100"
proof -
  have "sqrt 100 = 10" using real_sqrt_abs[of 10] by simp
  then show ?thesis using real_sqrt_less_iff[of 100 r] by simp
qed

lemma next_dist_gt: "next_dist (k, x, y) (k', x', y') > max_dist \<longleftrightarrow> (x' - x)\<^sup>2 + (y' - y)\<^sup>2 > 100"
proof -
  have "(of_int ((x' - x)\<^sup>2 + (y' - y)\<^sup>2) :: real) > 100 \<longleftrightarrow> (x' - x)\<^sup>2 + (y' - y)\<^sup>2 > 100"
    by (metis of_int_less_iff of_int_numeral)
  then show ?thesis using sqrt_gt_10[of "of_int ((x' - x)\<^sup>2 + (y' - y)\<^sup>2)"]
    by (simp add: max_dist_def)
qed

lemma interp_body_emit:
  "interp_body (pre @ c # cs) (length pre) c = emit c (case cs of [] \<Rightarrow> None | n # _ \<Rightarrow> Some n)"
  by (cases cs) (simp_all add: interp_body_def emit_def get_def nth_append split: pen.splits)

lemma interp_loop_rec:
  "interp_loop (pre @ cs) (enumerate (length pre) cs) out =
     (case resample_rec cs of Inl e \<Rightarrow> Inl e | Inr ws \<Rightarrow> Inr (out @ ws))"
proof (induction cs arbitrary: pre out rule: resample_rec.induct)
  case 1
  show ?case by simp
next
  case (2 c)
  show ?case using interp_body_emit[of pre c "[]"] by (simp split: sum.splits)
next
  case (3 c c' cs)
  have "interp_loop ((pre @ [c]) @ c' # cs) (enumerate (length (pre @ [c])) (c' # cs)) out' =
     (case resample_rec (c' # cs) of Inl e \<Rightarrow> Inl e | Inr ws \<Rightarrow> Inr (out' @ ws))"
    if "emit c (Some c') = Inr ws" for out' ws
    using that by (rule 3)
  then show ?case using interp_body_emit[of pre c "c' # cs"] by (simp split: sum.splits)
qed

lemma resample_rec_eq: "resample STEPS = resample_rec STEPS"
  using interp_loop_rec[of "[]" STEPS "[]"] by (simp add: resample_def split: sum.splits)

lemma emit_None: "emit (k, x, y) None = (case k of PU \<Rightarrow> Inr [(PU, of_int x, of_int y)] | PD \<Rightarrow> Inl IndexError)"
  by (simp add: emit_def interp_body_def get_def split: pen.splits)

lemma emit_Some:
  "emit c (Some c') =
     Inr (if (fst c = PU \<or> fst c' = PD) \<and> next_dist c c' > max_dist
          then [unchanged c, mid c c'] else [unchanged c])"
  by (cases c; cases c')
     (simp add: emit_def interp_body_def get_def interpolate_eq write_PD_def mid_def split: pen.splits)

lemma resample_rec_last:
  "cs \<noteq> [] \<Longrightarrow>
     (fst (last cs) = PD \<longrightarrow> resample_rec cs = Inl IndexError) \<and>
     (fst (last cs) = PU \<longrightarrow> (\<exists>out. resample_rec cs = Inr (out @ [unchanged (last cs)])))"
proof (induction cs rule: resample_rec.induct)
  case 1
  then show ?case by simp
next
  case (2 c)
  show ?case by (cases c) (simp add: emit_None split: pen.splits)
next
  case (3 c c' cs)
  then show ?case by (auto simp add: emit_Some)
qed

lemma resample_rec_hd:
  "resample_rec (c # cs) = Inr out \<Longrightarrow> out \<noteq> [] \<and> hd out = unchanged c"
  by (cases c; cases cs) (auto simp add: emit_Some emit_None split: sum.splits pen.splits if_splits prod.splits)


lemma wdist_unchanged: "wdist (unchanged c) (unchanged c') = next_dist c c'"
  by (cases c; cases c') simp

lemma sqrt_quarter: "sqrt ((a / 2)\<^sup>2 + (b / 2)\<^sup>2) = sqrt (a\<^sup>2 + b\<^sup>2) / 2"
proof -
  have "(a / 2)\<^sup>2 + (b / 2)\<^sup>2 = (a\<^sup>2 + b\<^sup>2) / 4"
    by (simp add: power_divide add_divide_distrib)
  then have "sqrt ((a / 2)\<^sup>2 + (b / 2)\<^sup>2) = sqrt (a\<^sup>2 + b\<^sup>2) / sqrt 4"
    by (simp only: real_sqrt_divide)
  moreover have "sqrt 4 = 2" using real_sqrt_abs[of 2] by simp
  ultimately show ?thesis by simp
qed

lemma sqrt_quarter_to: 
  "sqrt ((x' - ((x' - x) / 2 + x))\<^sup>2 + (y' - ((y' - y) / 2 + y))\<^sup>2) = sqrt ((x' - x)\<^sup>2 + (y' - y)\<^sup>2) / 2"
proof -
  have e: "x' - ((x' - x) / 2 + x) = (x' - x) / 2" "y' - ((y' - y) / 2 + y) = (y' - y) / 2"
    by (simp_all add: field_simps)
  show ?thesis unfolding e by (rule sqrt_quarter)
qed

lemma wdist_unchanged_mid: "wdist (unchanged c) (mid c c') = next_dist c c' / 2"
  by (cases c; cases c') (simp add: mid_def sqrt_quarter)

lemma wdist_mid_unchanged: "wdist (mid c c') (unchanged c') = next_dist c c' / 2"
  by (cases c; cases c') (simp add: mid_def sqrt_quarter_to)

lemma fst_mid: "fst (mid c c') = PD"
  by (simp add: mid_def)

lemma fst_unchanged: "fst (unchanged c) = fst c"
  by (cases c) simp

lemma resample_rec_within:
  "successively (\<lambda>c c'. fst c = PU \<or> fst c' = PD \<longrightarrow> next_dist c c' \<le> L) cs \<Longrightarrow>
   resample_rec cs = Inr out \<Longrightarrow>
     successively (within_dist (max max_dist (L / 2))) out"
proof (induction cs arbitrary: out rule: resample_rec.induct)
  case 1
  then show ?case by simp
next
  case (2 c)
  then show ?case by (cases c) (auto simp add: emit_None split: pen.splits)
next
  case (3 c c' cs)
  from "3.prems" obtain ws out' where
    ws: "emit c (Some c') = Inr ws" and out': "resample_rec (c' # cs) = Inr out'" and out: "out = ws @ out'"
    by (auto split: sum.splits)
  from "3.prems" have L: "fst c = PU \<or> fst c' = PD \<longrightarrow> next_dist c c' \<le> L"
    and rest: "successively (\<lambda>c c'. fst c = PU \<or> fst c' = PD \<longrightarrow> next_dist c c' \<le> L) (c' # cs)"
    by simp_all
  have IH: "successively (within_dist (max max_dist (L / 2))) out'"
    using "3.IH"[OF ws rest out'] .
  obtain out'' where hd: "out' = unchanged c' # out''"
    using resample_rec_hd[OF out'] by (cases out') auto
  show ?case
  proof (cases "(fst c = PU \<or> fst c' = PD) \<and> next_dist c c' > max_dist")
    case True
    then have "ws = [unchanged c, mid c c']" using ws by (simp add: emit_Some)
    moreover have "next_dist c c' / 2 \<le> max max_dist (L / 2)"
      using L True by (simp add: le_max_iff_disj)
    ultimately show ?thesis using IH hd
      by (simp add: out successively_append_iff within_dist_def wdist_unchanged_mid wdist_mid_unchanged fst_mid)
  next
    case False
    then have "ws = [unchanged c]" using ws by (auto simp add: emit_Some split: if_splits)
    then show ?thesis using IH hd False
      by (auto simp add: out successively_append_iff within_dist_def wdist_unchanged fst_unchanged)
  qed
qed


lemma resample_rec_runs:
  "successively (\<lambda>c c'. \<not> (fst c = PU \<and> fst c' = PU \<and> next_dist c c' > max_dist)) cs \<Longrightarrow>
   resample_rec cs = Inr out \<Longrightarrow> remdups_adj (map fst out) = remdups_adj (map fst cs)"
proof (induction cs arbitrary: out rule: resample_rec.induct)
  case 1
  then show ?case by simp
next
  case (2 c)
  then show ?case by (cases c) (auto simp add: emit_None split: pen.splits)
next
  case (3 c c' cs)
  from "3.prems" obtain ws out' where
    ws: "emit c (Some c') = Inr ws" and out': "resample_rec (c' # cs) = Inr out'" and out: "out = ws @ out'"
    by (auto split: sum.splits)
  from "3.prems" have ok: "\<not> (fst c = PU \<and> fst c' = PU \<and> next_dist c c' > max_dist)"
    and rest: "successively (\<lambda>c c'. \<not> (fst c = PU \<and> fst c' = PU \<and> next_dist c c' > max_dist)) (c' # cs)"
    by simp_all
  have IH: "remdups_adj (map fst out') = remdups_adj (map fst (c' # cs))"
    using "3.IH"[OF ws rest out'] .
  obtain w out'' where o: "out' = w # out''" "fst w = fst c'"
    using resample_rec_hd[OF out'] by (cases out') (auto simp add: fst_unchanged)
  show ?case
  proof (cases "(fst c = PU \<or> fst c' = PD) \<and> next_dist c c' > max_dist")
    case True
    then have "ws = [unchanged c, mid c c']" using ws by (simp add: emit_Some)
    moreover have "fst c' = PD" using True ok by (cases "fst c'") auto
    ultimately show ?thesis using IH o
      by (simp add: out fst_unchanged fst_mid)
  next
    case False
    then have "ws = [unchanged c]" using ws by (auto simp add: emit_Some split: if_splits)
    then show ?thesis using IH o
      by (simp add: out fst_unchanged)
  qed
qed

subsection \<open>Distance bound\<close>

text \<open>
  C1, as stated, fails: for \<open>N = 3\<close> \<open>linspace\<close> inserts the midpoint only, so a
  \<open>PD\<close> segment of length 100 in a run of three \<open>PD\<close> points leaves two consecutive
  \<open>PD\<close> lines 50 apart, with \<open>max_dist = 10\<close>.
\<close>

theorem resample_max_dist_counterexample:
  "resample [(PU, 0, 0), (PD, 0, 0), (PD, 100, 0), (PD, 100, 100), (PU, 0, 0)] =
     Inr [(PU, 0, 0), (PD, 0, 0), (PD, 50, 0), (PD, 100, 0), (PD, 100, 50), (PD, 100, 100), (PU, 0, 0)] \<and>
   \<not> successively (pd_pair_within max_dist)
     [(PU, 0, 0), (PD, 0, 0), (PD, 50, 0), (PD, 100, 0), (PD, 100, 50), (PD, 100, 100), (PU, 0, 0)]"
  by (simp add: resample_rec_eq emit_Some emit_None next_dist_gt mid_def pd_pair_within_def
        del: next_dist.simps) (simp add: max_dist_def)

text \<open>
  C1, amended: let \<open>L\<close> bound the distance between any two consecutive commands of
  \<open>STEPS\<close> other than a \<open>PD\<close> point followed by a \<open>PU\<close> point (the pen-up travel after
  a stroke, which is never interpolated and may be of any length). If the resampler
  returns, every line written as \<open>PD\<close> is at most \<open>max max_dist (L / 2)\<close> away from the
  line before it (two consecutive \<open>PD\<close> lines, and the approach from a \<open>PU\<close> line to a
  \<open>PD\<close> line). For \<open>L = 2 * max_dist\<close> this is the bound \<open>max_dist\<close>.
\<close>

theorem resample_max_dist:
  assumes "successively (\<lambda>c c'. fst c = PU \<or> fst c' = PD \<longrightarrow> next_dist c c' \<le> L) STEPS"
    and "resample STEPS = Inr out"
  shows "successively (within_dist (max max_dist (L / 2))) out"
  using assms by (simp add: resample_rec_eq resample_rec_within)

theorem resample_max_dist_witness:
  "resample [(PU, 0, 0), (PD, 0, 0), (PD, 12, 0), (PU, 100, 100), (PD, 100, 100), (PD, 110, 100), (PU, 0, 0)] =
     Inr [(PU, 0, 0), (PD, 0, 0), (PD, 6, 0), (PD, 12, 0), (PU, 100, 100), (PD, 100, 100), (PD, 110, 100),
          (PU, 0, 0)] \<and>
   successively (within_dist max_dist)
     [(PU, 0, 0), (PD, 0, 0), (PD, 6, 0), (PD, 12, 0), (PU, 100, 100), (PD, 100, 100), (PD, 110, 100),
      (PU, 0, 0)]"
proof -
  have h: "successively (\<lambda>c c'. fst c = PU \<or> fst c' = PD \<longrightarrow> next_dist c c' \<le> 20)
      [(PU, 0, 0), (PD, 0, 0), (PD, 12, 0), (PU, 100, 100), (PD, 100, 100), (PD, 110, 100), (PU, 0, 0)]"
    by simp
  have r: "resample [(PU, 0, 0), (PD, 0, 0), (PD, 12, 0), (PU, 100, 100), (PD, 100, 100), (PD, 110, 100),
        (PU, 0, 0)] =
     Inr [(PU, 0, 0), (PD, 0, 0), (PD, 6, 0), (PD, 12, 0), (PU, 100, 100), (PD, 100, 100), (PD, 110, 100),
          (PU, 0, 0)]"
    by (simp add: resample_rec_eq emit_Some emit_None next_dist_gt mid_def del: next_dist.simps)
  show ?thesis using r resample_max_dist[OF h r] by (simp add: max_dist_def)
qed

subsection \<open>Pen-state changes\<close>

text \<open>
  C6, as stated, fails: between a far \<open>PU\<close> point and the \<open>PD\<close> point after it the
  loop writes the midpoint as \<open>PD\<close>, so the pen state changes at an interpolated line
  that is no point of the source.
\<close>

theorem resample_pen_change_counterexample:
  "resample [(PU, 0, 0), (PD, 100, 0), (PU, 0, 0)] =
     Inr [(PU, 0, 0), (PD, 50, 0), (PD, 100, 0), (PU, 0, 0)] \<and>
   (PD, 50, 0) \<in> set (change_points [(PU, 0, 0), (PD, 50, 0), (PD, 100, 0), (PU, 0, 0)]) \<and>
   (PD, 50, 0) \<notin> unchanged ` set [(PU, 0, 0), (PD, 100, 0), (PU, 0, 0)]"
  by (simp add: resample_rec_eq emit_Some emit_None next_dist_gt mid_def change_points_def
        del: next_dist.simps)

text \<open>
  C6, amended: if no \<open>PU\<close> point is followed by a \<open>PU\<close> point farther than
  \<open>max_dist\<close> away and the resampler returns, the output has the same sequence of
  pen-up and pen-down runs as the source (the pen states with adjacent repetitions
  removed are equal): interpolation adds no run, but the change from up to down may sit
  at the interpolated midpoint of the approach.
\<close>

theorem resample_pen_runs:
  assumes "successively (\<lambda>c c'. \<not> (fst c = PU \<and> fst c' = PU \<and> next_dist c c' > max_dist)) STEPS"
    and "resample STEPS = Inr out"
  shows "remdups_adj (map fst out) = remdups_adj (map fst STEPS)"
  using assms by (simp add: resample_rec_eq resample_rec_runs)

theorem resample_pen_runs_witness:
  "successively (\<lambda>c c'. \<not> (fst c = PU \<and> fst c' = PU \<and> next_dist c c' > max_dist))
     [(PU, 0, 0), (PD, 100, 0), (PD, 200, 0), (PU, 0, 0)] \<and>
   resample [(PU, 0, 0), (PD, 100, 0), (PD, 200, 0), (PU, 0, 0)] =
     Inr [(PU, 0, 0), (PD, 50, 0), (PD, 100, 0), (PD, 150, 0), (PD, 200, 0), (PU, 0, 0)] \<and>
   remdups_adj (map fst [(PU, 0 :: real, 0 :: real), (PD, 50, 0), (PD, 100, 0), (PD, 150, 0), (PD, 200, 0), (PU, 0, 0)]) =
     [PU, PD, PU]"
proof -
  have h: "successively (\<lambda>c c'. \<not> (fst c = PU \<and> fst c' = PU \<and> next_dist c c' > max_dist))
     [(PU, 0, 0), (PD, 100, 0), (PD, 200, 0), (PU, 0, 0)]"
    by simp
  have r: "resample [(PU, 0, 0), (PD, 100, 0), (PD, 200, 0), (PU, 0, 0)] =
     Inr [(PU, 0, 0), (PD, 50, 0), (PD, 100, 0), (PD, 150, 0), (PD, 200, 0), (PU, 0, 0)]"
    by (simp add: resample_rec_eq emit_Some emit_None next_dist_gt mid_def del: next_dist.simps)
  show ?thesis using h r resample_pen_runs[OF h r] by simp
qed

subsection \<open>The terminal point\<close>

text \<open>
  C7, as stated, fails: for a sequence that ends with a \<open>PD\<close> point the lookup
  \<open>STEPS[idx+1]\<close> of the \<open>PD\<close> branch is out of bounds and the loop raises.
\<close>

theorem resample_terminal_counterexample:
  "resample [(PU, 0, 0), (PD, 5, 5)] = Inl IndexError"
  by (simp add: resample_rec_eq emit_Some emit_None next_dist_gt del: next_dist.simps)

text \<open>
  C7, amended: for a non-empty sequence whose last command is \<open>PU\<close> the resampler
  returns and the last line written is the terminal point unchanged; for a non-empty
  sequence whose last command is \<open>PD\<close> it raises \<open>IndexError\<close>.
\<close>

theorem resample_terminal:
  assumes "STEPS \<noteq> []"
  shows "(fst (last STEPS) = PU \<longrightarrow> (\<exists>out. resample STEPS = Inr (out @ [unchanged (last STEPS)]))) \<and>
         (fst (last STEPS) = PD \<longrightarrow> resample STEPS = Inl IndexError)"
  using resample_rec_last[OF assms] by (simp add: resample_rec_eq)

theorem resample_terminal_witness:
  "[(PD, 0, 0), (PD, 30, 40), (PU, 7, 7)] \<noteq> [] \<and>
   resample [(PD, 0, 0), (PD, 30, 40), (PU, 7, 7)] = Inr ([(PD, 0, 0), (PD, 15, 20), (PD, 30, 40)] @ [(PU, 7, 7)]) \<and>
   resample [(PD, 0, 0), (PD, 30, 40)] = Inl IndexError"
  using resample_terminal[of "[(PD, 0, 0), (PD, 30, 40), (PU, 7, 7)]"]
        resample_terminal[of "[(PD, 0, 0), (PD, 30, 40)]"]
  by (simp add: resample_rec_eq emit_Some emit_None next_dist_gt mid_def del: next_dist.simps)

section \<open>Properties of the motion controller driver\<close>

lemmas regs = PMUL_PDIV_def A_MAX_def RAMP_MODE_def X_TARGET_def

lemma send_recv_write:
  "b0 AND 1 = 0 \<Longrightarrow> send_recv (d\<lparr>TX_buf := (b0, b1, b2, b3)\<rparr>) =
     d\<lparr>TX_buf := (b0, b1, b2, b3), sent := sent d @ [(b0, b1, b2, b3)],
       registers := (registers d)(drop_bit 1 b0 := (b1, b2, b3))\<rparr>"
  by (simp add: send_recv_def)

subsection \<open>The acceleration search\<close>

lemma pdiv_loop_spec:
  "0 \<le> pdiv \<Longrightarrow> pdiv \<le> 14 \<Longrightarrow> pdiv_loop max_accel pmul pdiv = (pd', v) \<Longrightarrow>
     (v = 1 \<and> pdiv \<le> pd' \<and> pd' \<le> 13 \<and> valid_pair max_accel pmul pd' \<and>
        (\<forall>j. pdiv \<le> j \<and> j < pd' \<longrightarrow> \<not> valid_pair max_accel pmul j)) \<or>
     (v = 0 \<and> pd' = 14 \<and> (\<forall>j. pdiv \<le> j \<and> j \<le> 13 \<longrightarrow> \<not> valid_pair max_accel pmul j))"
proof (induction max_accel pmul pdiv rule: pdiv_loop.induct)
  case (1 max_accel pmul pdiv)
  note unf = pdiv_loop.simps[of max_accel pmul pdiv]
  show ?case
  proof (cases "pdiv < 14")
    case False
    then have "(pd', v) = (pdiv, 0)" using "1.prems"(3) unf by simp
    then show ?thesis using False "1.prems"(1,2) by auto
  next
    case lt: True
    show ?thesis
    proof (cases "valid_pair max_accel pmul pdiv")
      case True
      then have "(pd', v) = (pdiv, 1)" using lt "1.prems"(3) unf by simp
      then show ?thesis using True lt by auto
    next
      case False
      then have eq: "pdiv_loop max_accel pmul (pdiv + 1) = (pd', v)"
        using lt "1.prems"(3) unf by simp
      have "(v = 1 \<and> pdiv + 1 \<le> pd' \<and> pd' \<le> 13 \<and> valid_pair max_accel pmul pd' \<and>
        (\<forall>j. pdiv + 1 \<le> j \<and> j < pd' \<longrightarrow> \<not> valid_pair max_accel pmul j)) \<or>
       (v = 0 \<and> pd' = 14 \<and> (\<forall>j. pdiv + 1 \<le> j \<and> j \<le> 13 \<longrightarrow> \<not> valid_pair max_accel pmul j))"
        using "1.IH"[OF lt False _ _ eq] lt "1.prems" by simp
      moreover have "\<not> valid_pair max_accel pmul j" if "pdiv \<le> j" "j < pdiv + 1" for j
        using that False by (simp add: order_antisym)
      ultimately show ?thesis by (smt (verit))
    qed
  qed
qed

lemma pmul_loop_spec:
  "pmul \<le> 256 \<Longrightarrow> pmul_loop max_accel pmul pdiv = (pm', pd', v) \<Longrightarrow>
     (v = 1 \<and> pmul \<le> pm' \<and> pm' \<le> 255 \<and> 0 \<le> pd' \<and> pd' \<le> 13 \<and> valid_pair max_accel pm' pd' \<and>
        (\<forall>j. 0 \<le> j \<and> j < pd' \<longrightarrow> \<not> valid_pair max_accel pm' j) \<and>
        (\<forall>pm pd. pmul \<le> pm \<and> pm < pm' \<and> 0 \<le> pd \<and> pd \<le> 13 \<longrightarrow> \<not> valid_pair max_accel pm pd)) \<or>
     (v = 0 \<and> pm' = 256 \<and> (pmul < 256 \<longrightarrow> pd' = 14) \<and>
        (\<forall>pm pd. pmul \<le> pm \<and> pm \<le> 255 \<and> 0 \<le> pd \<and> pd \<le> 13 \<longrightarrow> \<not> valid_pair max_accel pm pd))"
proof (induction max_accel pmul pdiv rule: pmul_loop.induct)
  case (1 max_accel pmul pdiv)
  note unf = pmul_loop.simps[of max_accel pmul pdiv]
  show ?case
  proof (cases "pmul < 128 + 128")
    case False
    then have "(pm', pd', v) = (pmul, pdiv, 0)" using "1.prems"(2) unf by simp
    then show ?thesis using False "1.prems"(1) by auto
  next
    case lt: True
    obtain pdv vv where inner: "pdiv_loop max_accel pmul 0 = (pdv, vv)"
      by (cases "pdiv_loop max_accel pmul 0")
    note sp = pdiv_loop_spec[OF _ _ inner]
    show ?thesis
    proof (cases "vv = 1")
      case True
      then have "(pm', pd', v) = (pmul, pdv, vv)"
        using lt inner "1.prems"(2) unf by simp
      then show ?thesis using True sp lt by auto
    next
      case False
      then have eq: "pmul_loop max_accel (pmul + 1) pdv = (pm', pd', v)"
        using lt inner "1.prems"(2) unf by simp
      from False sp have none: "pdv = 14" "\<forall>j. 0 \<le> j \<and> j \<le> 13 \<longrightarrow> \<not> valid_pair max_accel pmul j"
        by auto
      have IH: "(v = 1 \<and> pmul + 1 \<le> pm' \<and> pm' \<le> 255 \<and> 0 \<le> pd' \<and> pd' \<le> 13 \<and> valid_pair max_accel pm' pd' \<and>
        (\<forall>j. 0 \<le> j \<and> j < pd' \<longrightarrow> \<not> valid_pair max_accel pm' j) \<and>
        (\<forall>pm pd. pmul + 1 \<le> pm \<and> pm < pm' \<and> 0 \<le> pd \<and> pd \<le> 13 \<longrightarrow> \<not> valid_pair max_accel pm pd)) \<or>
       (v = 0 \<and> pm' = 256 \<and> (pmul + 1 < 256 \<longrightarrow> pd' = 14) \<and>
        (\<forall>pm pd. pmul + 1 \<le> pm \<and> pm \<le> 255 \<and> 0 \<le> pd \<and> pd \<le> 13 \<longrightarrow> \<not> valid_pair max_accel pm pd))"
        using "1.IH"[OF lt inner[symmetric] False _ eq] lt by simp
      have step: "\<not> valid_pair max_accel pm pd" if "pmul \<le> pm" "pm < pmul + 1" "0 \<le> pd" "pd \<le> 13" for pm pd
      proof -
        from that have "pm = pmul" by simp
        then show ?thesis using none that by simp
      qed
      have last: "pd' = 14" if "v = 0" "\<not> pmul + 1 < 256"
      proof -
        have "pmul + 1 = 256" using that lt by simp
        then show ?thesis using eq none pmul_loop.simps[of max_accel 256 14] by simp
      qed
      show ?thesis using IH step last by (smt (verit))
    qed
  qed
qed

lemma pmul_byte:
  assumes "128 \<le> pmul" "pmul \<le> 255"
  shows "128 OR (pmul AND 127) = (pmul :: int)"
proof -
  have "\<forall>p \<in> set [128..255]. 128 OR (p AND 127) = (p :: int)" by code_simp
  moreover have "pmul \<in> set [128..255]" using assms by (simp only: set_upto atLeastAtMost_iff)
  ultimately show ?thesis by blast
qed

lemma pdiv_byte:
  assumes "0 \<le> pdiv" "pdiv \<le> 14"
  shows "pdiv AND 15 = (pdiv :: int)"
proof -
  have "\<forall>p \<in> set [0..14]. p AND 15 = (p :: int)" by code_simp
  moreover have "pdiv \<in> set [0..14]" using assms by (simp only: set_upto atLeastAtMost_iff)
  ultimately show ?thesis by blast
qed

lemma set_accel_result:
  assumes "max_accel \<noteq> 0" and "pmul_loop max_accel 128 0 = (pmul, pdiv, v)"
  shows "\<exists>d'. set_accel max_accel d = Inr d' \<and>
     sent d' = sent d @ [(18, 0, 128 OR (pmul AND 127), pdiv AND 15),
                         (12, 0, drop_bit 8 max_accel AND 7, max_accel AND 255)] \<and>
     registers d' PMUL_PDIV = (0, 128 OR (pmul AND 127), pdiv AND 15)"
  using assms
  by (simp add: set_accel_def Let_def regs send_recv_write)

lemma search_5000: "pmul_loop 5000 128 0 = (256, 14, 0)"
  by code_simp

text \<open>
  C3, as stated, fails in its second half: for \<open>max_accel = 5000\<close> the search ends
  with \<open>valid = 0\<close>, and \<open>set_accel\<close> returns normally after sending the bytes
  \<open>128\<close> (from \<open>pmul = 256\<close>) and \<open>14\<close> to \<open>PMUL_PDIV\<close>.
\<close>

theorem set_accel_exhausted_counterexample:
  "pmul_loop 5000 128 0 = (256, 14, 0) \<and>
   map_sum id sent (set_accel 5000 drv0) = Inr [(18, 0, 128, 14), (12, 0, 3, 136)]"
  by (simp add: search_5000 set_accel_def regs send_recv_write Let_def) (simp add: drv0_def)

text \<open>
  C3, amended: for a positive \<open>max_accel\<close>, if some pair in range passes the test,
  \<open>set_accel\<close> sends to \<open>PMUL_PDIV\<close> the first such pair of the search order; if none
  does, it reports nothing and sends the bytes \<open>128\<close> and \<open>14\<close>. In both cases the
  datagram to \<open>A_MAX\<close> follows.
\<close>

theorem set_accel_search:
  assumes "0 < max_accel"
  shows "((\<exists>pm pd. in_range pm pd \<and> valid_pair max_accel pm pd) \<longrightarrow>
            (\<exists>pmul pdiv d'. first_valid max_accel pmul pdiv \<and> set_accel max_accel d = Inr d' \<and>
               sent d' = sent d @ [(18, 0, pmul, pdiv),
                                   (12, 0, drop_bit 8 max_accel AND 7, max_accel AND 255)] \<and>
               registers d' PMUL_PDIV = (0, pmul, pdiv))) \<and>
         (\<not> (\<exists>pm pd. in_range pm pd \<and> valid_pair max_accel pm pd) \<longrightarrow>
            (\<exists>d'. set_accel max_accel d = Inr d' \<and>
               sent d' = sent d @ [(18, 0, 128, 14),
                                   (12, 0, drop_bit 8 max_accel AND 7, max_accel AND 255)] \<and>
               registers d' PMUL_PDIV = (0, 128, 14)))"
proof -
  obtain pmul pdiv v where search: "pmul_loop max_accel 128 0 = (pmul, pdiv, v)"
    by (cases "pmul_loop max_accel 128 0")
  from assms have nz: "max_accel \<noteq> 0" by simp
  note res = set_accel_result[OF nz search, of d]
  from pmul_loop_spec[OF _ search]
  consider
    (found) "v = 1" "128 \<le> pmul" "pmul \<le> 255" "0 \<le> pdiv" "pdiv \<le> 13" "valid_pair max_accel pmul pdiv"
      "\<forall>j. 0 \<le> j \<and> j < pdiv \<longrightarrow> \<not> valid_pair max_accel pmul j"
      "\<forall>pm pd. 128 \<le> pm \<and> pm < pmul \<and> 0 \<le> pd \<and> pd \<le> 13 \<longrightarrow> \<not> valid_pair max_accel pm pd"
  | (none) "v = 0" "pmul = 256" "pdiv = 14"
      "\<forall>pm pd. 128 \<le> pm \<and> pm \<le> 255 \<and> 0 \<le> pd \<and> pd \<le> 13 \<longrightarrow> \<not> valid_pair max_accel pm pd"
    by auto
  then show ?thesis
  proof cases
    case found
    have first: "first_valid max_accel pmul pdiv"
      unfolding first_valid_def in_range_def
    proof (intro conjI allI impI)
      fix pm pd
      assume a: "(128 \<le> pm \<and> pm \<le> 255 \<and> 0 \<le> pd \<and> pd \<le> 13) \<and> valid_pair max_accel pm pd"
      show "pmul < pm \<or> pmul = pm \<and> pdiv \<le> pd"
      proof (rule ccontr)
        assume "\<not> (pmul < pm \<or> pmul = pm \<and> pdiv \<le> pd)"
        then have "pm < pmul \<or> (pm = pmul \<and> pd < pdiv)" by auto
        then show False using a found(7,8) by auto
      qed
    qed (use found in simp_all)
    have bytes: "128 OR (pmul AND 127) = pmul" "pdiv AND 15 = pdiv"
      using found by (simp_all add: pmul_byte pdiv_byte)
    have ex: "\<exists>pm pd. in_range pm pd \<and> valid_pair max_accel pm pd"
      using first by (auto simp add: first_valid_def)
    show ?thesis using res first ex by (auto simp add: bytes)
  next
    case none
    have bytes: "128 OR (pmul AND 127) = 128" "pdiv AND 15 = 14"
      using none by simp_all
    have nex: "\<not> (\<exists>pm pd. in_range pm pd \<and> valid_pair max_accel pm pd)"
      using none(4) by (auto simp add: in_range_def)
    show ?thesis using res nex by (auto simp add: bytes)
  qed
qed

theorem set_accel_search_witness:
  "(0 :: int) < 100 \<and> (\<exists>pm pd. in_range pm pd \<and> valid_pair 100 pm pd) \<and>
   (\<exists>pmul pdiv d'. first_valid 100 pmul pdiv \<and> set_accel 100 drv0 = Inr d' \<and>
      sent d' = sent drv0 @ [(18, 0, pmul, pdiv), (12, 0, drop_bit 8 100 AND 7, 100 AND 255)] \<and>
      registers d' PMUL_PDIV = (0, pmul, pdiv)) \<and>
   (0 :: int) < 5000 \<and> \<not> (\<exists>pm pd. in_range pm pd \<and> valid_pair 5000 pm pd) \<and>
   (\<exists>d'. set_accel 5000 drv0 = Inr d' \<and>
      sent d' = sent drv0 @ [(18, 0, 128, 14), (12, 0, drop_bit 8 5000 AND 7, 5000 AND 255)] \<and>
      registers d' PMUL_PDIV = (0, 128, 14))"
proof -
  have "in_range 191 5 \<and> valid_pair 100 191 5"
    by (simp add: in_range_def valid_pair_def q_def pow2_def)
  then have ex: "\<exists>pm pd. in_range pm pd \<and> valid_pair 100 pm pd" by blast
  have nex: "\<not> (\<exists>pm pd. in_range pm pd \<and> valid_pair 5000 pm pd)"
    using pmul_loop_spec[OF _ search_5000] by (auto simp add: in_range_def)
  show ?thesis
    using ex nex set_accel_search[of 100 drv0] set_accel_search[of 5000 drv0] by simp
qed

subsection \<open>Target position, written and read back\<close>

lemma bytes_24:
  "push_bit 16 (drop_bit 16 n AND 255) OR push_bit 8 (drop_bit 8 n AND 255) OR (n AND 255) = take_bit 24 (n :: int)"
proof -
  have m: "(255 :: int) = mask 8" by (simp add: mask_eq_exp_minus_1)
  show ?thesis unfolding m
  proof (rule bit_eqI)
    fix i :: nat
    consider "i < 8" | "8 \<le> i" "i < 16" | "16 \<le> i" "i < 24" | "24 \<le> i" by linarith
    then show "bit (push_bit 16 (drop_bit 16 n AND mask 8) OR push_bit 8 (drop_bit 8 n AND mask 8) OR (n AND mask 8)) i =
      bit (take_bit 24 n) i"
      by cases (auto simp add: bit_simps)
  qed
qed

lemma registers_set_target_pos:
  "registers (set_target_pos \<theta> d) 0 =
     (let n = py_int (\<theta> * ((8 * 48) / (2 * pi)))
      in (drop_bit 16 n AND 255, drop_bit 8 n AND 255, n AND 255))"
  by (simp add: set_target_pos_def Let_def regs send_recv_def)

lemma get_target_pos_registers:
  "registers d 0 = (r1, r2, r3) \<Longrightarrow>
     fst (get_target_pos d) = of_int (push_bit 16 r1 OR push_bit 8 r2 OR r3) * ((2 * pi) / (8 * 48))"
  by (simp add: get_target_pos_def Let_def regs send_recv_def split: prod.splits)

lemma get_after_set:
  "fst (get_target_pos (set_target_pos \<theta> d)) =
     of_int (take_bit 24 (py_int (\<theta> * ((8 * 48) / (2 * pi))))) * ((2 * pi) / (8 * 48))"
proof -
  define n where "n = py_int (\<theta> * ((8 * 48) / (2 * pi)))"
  have "registers (set_target_pos \<theta> d) 0 = (drop_bit 16 n AND 255, drop_bit 8 n AND 255, n AND 255)"
    unfolding n_def registers_set_target_pos Let_def ..
  then have "fst (get_target_pos (set_target_pos \<theta> d)) =
      of_int (push_bit 16 (drop_bit 16 n AND 255) OR push_bit 8 (drop_bit 8 n AND 255) OR (n AND 255)) *
        ((2 * pi) / (8 * 48))"
    by (rule get_target_pos_registers)
  then show ?thesis unfolding bytes_24 n_def .
qed

text \<open>
  C4, as stated, fails: a negative angle is sent as the low 24 bits of a negative number
  of microsteps and read back as an unsigned number, \<open>2 ^ 24\<close> microsteps away.
\<close>

theorem target_pos_roundtrip_counterexample:
  "\<not> \<bar>fst (get_target_pos (set_target_pos (- (2 * pi)) drv0)) - (- (2 * pi))\<bar> \<le> 2 * pi / 384"
proof -
  have "py_int (- (2 * pi) * ((8 * 48) / (2 * pi))) = - 384"
    by (simp add: py_int_def)
  moreover have "take_bit 24 (- 384 :: int) = 16776832" by (simp add: take_bit_eq_mod)
  ultimately have "fst (get_target_pos (set_target_pos (- (2 * pi)) drv0)) = 16776832 * ((2 * pi) / (8 * 48))"
    by (simp only: get_after_set of_int_numeral)
  then have "fst (get_target_pos (set_target_pos (- (2 * pi)) drv0)) - (- (2 * pi)) = (16776832 / 192 + 2) * pi"
    by (simp add: field_simps)
  moreover have "(16776832 / 192 + 2) * pi > 2 * pi / 384"
    using pi_gt_zero by simp
  ultimately show ?thesis by linarith
qed

text \<open>
  C4, amended: for an angle \<open>\<theta>\<close> with \<open>0 \<le> \<theta>\<close> whose number of microsteps is below
  \<open>2 ^ 24\<close>, the value read back after \<open>set_target_pos \<theta>\<close> is at most \<open>\<theta>\<close> and less
  than one microstep (\<open>2 * pi / 384\<close>) below it.
\<close>

theorem target_pos_roundtrip:
  assumes "0 \<le> \<theta>" and "\<theta> * ((8 * 48) / (2 * pi)) < 2 ^ 24"
  shows "fst (get_target_pos (set_target_pos \<theta> d)) \<le> \<theta> \<and>
         \<theta> - fst (get_target_pos (set_target_pos \<theta> d)) < 2 * pi / 384"
proof -
  define k :: real where "k = (8 * 48) / (2 * pi)"
  define n where "n = \<lfloor>\<theta> * k\<rfloor>"
  have kpos: "0 < k" using pi_gt_zero by (simp add: k_def)
  have nn: "0 \<le> \<theta> * k" using assms(1) kpos by simp
  then have n0: "0 \<le> n" by (simp add: n_def)
  have "of_int n \<le> \<theta> * k" by (simp add: n_def)
  also have "\<dots> < 2 ^ 24" using assms(2) by (simp add: k_def)
  finally have "n < 2 ^ 24" by (metis of_int_less_iff of_int_numeral of_int_power)
  then have tb: "take_bit 24 n = n" using n0 by (simp add: take_bit_int_eq_self)
  have py: "py_int (\<theta> * k) = n" using nn by (simp add: py_int_def n_def)
  have v: "fst (get_target_pos (set_target_pos \<theta> d)) = of_int n / k"
    unfolding get_after_set k_def[symmetric] py tb by (simp add: k_def)
  have lo: "of_int n \<le> \<theta> * k" by (simp add: n_def)
  have hi: "\<theta> * k < of_int n + 1" by (simp add: n_def)
  have "of_int n / k \<le> \<theta>" using lo kpos by (simp add: field_simps)
  moreover have "\<theta> < of_int n / k + 1 / k" using hi kpos by (simp add: field_simps)
  moreover have "1 / k = 2 * pi / 384" by (simp add: k_def)
  ultimately show ?thesis unfolding v by linarith
qed

theorem target_pos_roundtrip_witness:
  "(0 :: real) \<le> pi \<and> pi * ((8 * 48) / (2 * pi)) < 2 ^ 24 \<and>
   fst (get_target_pos (set_target_pos pi drv0)) \<le> pi \<and>
   pi - fst (get_target_pos (set_target_pos pi drv0)) < 2 * pi / 384"
proof -
  have h1: "(0 :: real) \<le> pi" by simp
  have h2: "pi * ((8 * 48) / (2 * pi)) < 2 ^ 24" by simp
  show ?thesis using h1 h2 target_pos_roundtrip[OF h1 h2, of drv0] by simp
qed

subsection \<open>Unrecognised mode\<close>

text \<open>
  C9, as stated, fails: \<open>set_mode\<close> with an unrecognised string returns normally, as the
  four recognised modes do; it only prints.
\<close>

theorem set_mode_invalid_counterexample:
  "set_mode ''spin'' drv0 = Inr (drv0\<lparr>console := [''Invalid mode.'']\<rparr>)"
  by (simp add: set_mode_def print_def drv0_def)

text \<open>
  C9, amended: \<open>set_mode\<close> with a string other than the four recognised ones prints
  \<open>Invalid mode.\<close>, sends no datagram, changes no register or buffer, and returns
  without an error.
\<close>

theorem set_mode_invalid:
  assumes "mode \<notin> {''ramp'', ''hold'', ''velocity'', ''soft''}"
  shows "set_mode mode d = Inr (d\<lparr>console := console d @ [''Invalid mode.'']\<rparr>)"
  using assms by (simp add: set_mode_def print_def)

theorem set_mode_invalid_witness:
  "''fast'' \<notin> {''ramp'', ''hold'', ''velocity'', ''soft''} \<and>
   set_mode ''fast'' drv0 = Inr (drv0\<lparr>console := console drv0 @ [''Invalid mode.'']\<rparr>)"
proof -
  have h: "''fast'' \<notin> {''ramp'', ''hold'', ''velocity'', ''soft''}" by simp
  show ?thesis using h set_mode_invalid[OF h, of drv0] by simp
qed

section \<open>Properties of the kinematics solver\<close>

lemma dg_partials:
  "((\<lambda>t. fst (g x (t, t2))) has_real_derivative fst (fst (dg_dtheta (t1, t2)))) (at t1)"
  "((\<lambda>t. fst (g x (t1, t))) has_real_derivative snd (fst (dg_dtheta (t1, t2)))) (at t2)"
  "((\<lambda>t. snd (g x (t, t2))) has_real_derivative fst (snd (dg_dtheta (t1, t2)))) (at t1)"
  "((\<lambda>t. snd (g x (t1, t))) has_real_derivative snd (snd (dg_dtheta (t1, t2)))) (at t2)"
  unfolding g_def f_def dg_dtheta_def fst_conv snd_conv
  by (auto intro!: derivative_eq_intros)

lemma f_partial_theta2:
  "((\<lambda>t. fst (f (t1, t))) has_real_derivative (4 / pi) * cos (t1 / 3)) (at t2)"
  unfolding f_def fst_conv snd_conv
  by (auto intro!: derivative_eq_intros)

text \<open>
  C2, as stated, fails: the matrix \<open>dg_dtheta\<close> used in the update is not the Jacobian
  of the forward model \<open>f\<close>. At \<open>theta = (0, 1)\<close> the derivative of the \<open>x\<close> component of
  \<open>f\<close> in \<open>theta2\<close> is \<open>4 / pi\<close>, and the entry of \<open>dg_dtheta\<close> is \<open>- 4 / pi\<close>.
\<close>

theorem dg_dtheta_model_counterexample:
  "\<not> ((\<lambda>t. fst (f (0, t))) has_real_derivative snd (fst (dg_dtheta (0, 1)))) (at 1)"
proof
  assume a: "((\<lambda>t. fst (f (0, t))) has_real_derivative snd (fst (dg_dtheta (0, 1)))) (at 1)"
  have b: "((\<lambda>t. fst (f (0, t))) has_real_derivative (4 / pi) * cos (0 / 3)) (at 1)"
    by (rule f_partial_theta2)
  have "snd (fst (dg_dtheta (0, 1))) = (4 / pi) * cos (0 / 3)"
    using DERIV_unique[OF a b] .
  then have "- 4 / pi = 4 / pi" by (simp add: dg_dtheta_def)
  then show False using pi_gt_zero by (simp add: field_simps)
qed

lemma NewtonRaphson_result:
  assumes "NewtonRaphson fcn jacobian theta_n thresh = Some r"
  shows "case r of Inl e \<Rightarrow> True
      | Inr theta \<Rightarrow> \<bar>fst (fcn theta)\<bar> \<le> thresh \<and> \<bar>snd (fcn theta)\<bar> \<le> thresh"
proof (rule NewtonRaphson.raw_induct[where
      P = "\<lambda>fcn jacobian theta_n thresh r. case r of Inl e \<Rightarrow> True
        | Inr theta \<Rightarrow> \<bar>fst (fcn theta)\<bar> \<le> thresh \<and> \<bar>snd (fcn theta)\<bar> \<le> thresh",
      OF _ assms])
  fix NR :: "(vec \<Rightarrow> vec) \<Rightarrow> (vec \<Rightarrow> mat) \<Rightarrow> vec \<Rightarrow> real \<Rightarrow> (error + vec) option"
  fix fcn jacobian theta_n thresh r
  assume IH: "\<And>fcn jacobian theta_n thresh r. NR fcn jacobian theta_n thresh = Some r \<Longrightarrow>
      (case r of Inl e \<Rightarrow> True
        | Inr theta \<Rightarrow> \<bar>fst (fcn theta)\<bar> \<le> thresh \<and> \<bar>snd (fcn theta)\<bar> \<le> thresh)"
    and body: "(if \<bar>fst (fcn theta_n)\<bar> \<le> thresh \<and> \<bar>snd (fcn theta_n)\<bar> \<le> thresh then Some (Inr theta_n)
      else case inv (jacobian theta_n) of Inl e \<Rightarrow> Some (Inl e)
           | Inr J \<Rightarrow> NR fcn jacobian
                (fst theta_n - fst (dot J (fcn theta_n)), snd theta_n - snd (dot J (fcn theta_n))) thresh) = Some r"
  show "case r of Inl e \<Rightarrow> True
      | Inr theta \<Rightarrow> \<bar>fst (fcn theta)\<bar> \<le> thresh \<and> \<bar>snd (fcn theta)\<bar> \<le> thresh"
  proof (cases "\<bar>fst (fcn theta_n)\<bar> \<le> thresh \<and> \<bar>snd (fcn theta_n)\<bar> \<le> thresh")
    case True
    then show ?thesis using body by auto
  next
    case False
    show ?thesis
    proof (cases "inv (jacobian theta_n)")
      case (Inl e)
      then show ?thesis using body False by auto
    next
      case (Inr J)
      then have "NR fcn jacobian
                (fst theta_n - fst (dot J (fcn theta_n)), snd theta_n - snd (dot J (fcn theta_n))) thresh = Some r"
        using body False by simp
      then show ?thesis by (rule IH)
    qed
  qed
qed

lemma NewtonRaphson_returns:
  "NewtonRaphson fcn jacobian theta_n thresh = Some (Inr theta) \<Longrightarrow>
     \<bar>fst (fcn theta)\<bar> \<le> thresh \<and> \<bar>snd (fcn theta)\<bar> \<le> thresh"
  using NewtonRaphson_result[of fcn jacobian theta_n thresh "Inr theta"] by simp

text \<open>
  C2, amended: \<open>dg_dtheta\<close> is the matrix of partial derivatives of the residual
  \<open>g x\<close> (desired minus model), that is the negated Jacobian of the forward model.
  \<open>NewtonRaphson\<close> returns the current \<open>theta\<close> when both components of the residual
  have magnitude at most \<open>thresh\<close>; otherwise it continues from
  \<open>theta - inv (dg_dtheta theta) * g x theta\<close>, or raises when the matrix is singular;
  and whatever it returns has a residual within \<open>thresh\<close> in both components.
\<close>

theorem NewtonRaphson_residual_jacobian:
  "((\<lambda>t. fst (g x (t, t2))) has_real_derivative fst (fst (dg_dtheta (t1, t2)))) (at t1) \<and>
   ((\<lambda>t. fst (g x (t1, t))) has_real_derivative snd (fst (dg_dtheta (t1, t2)))) (at t2) \<and>
   ((\<lambda>t. snd (g x (t, t2))) has_real_derivative fst (snd (dg_dtheta (t1, t2)))) (at t1) \<and>
   ((\<lambda>t. snd (g x (t1, t))) has_real_derivative snd (snd (dg_dtheta (t1, t2)))) (at t2) \<and>
   (\<bar>fst (g x \<theta>)\<bar> \<le> thresh \<and> \<bar>snd (g x \<theta>)\<bar> \<le> thresh \<longrightarrow>
      NewtonRaphson (g x) dg_dtheta \<theta> thresh = Some (Inr \<theta>)) \<and>
   (\<not> (\<bar>fst (g x \<theta>)\<bar> \<le> thresh \<and> \<bar>snd (g x \<theta>)\<bar> \<le> thresh) \<longrightarrow>
      NewtonRaphson (g x) dg_dtheta \<theta> thresh =
        (case inv (dg_dtheta \<theta>) of
           Inl e \<Rightarrow> Some (Inl e)
         | Inr J \<Rightarrow> NewtonRaphson (g x) dg_dtheta
             (fst \<theta> - fst (dot J (g x \<theta>)), snd \<theta> - snd (dot J (g x \<theta>))) thresh)) \<and>
   (NewtonRaphson (g x) dg_dtheta \<theta> thresh = Some (Inr \<theta>') \<longrightarrow>
      \<bar>fst (g x \<theta>')\<bar> \<le> thresh \<and> \<bar>snd (g x \<theta>')\<bar> \<le> thresh)"
proof (intro conjI impI)
  show "NewtonRaphson (g x) dg_dtheta \<theta> thresh = Some (Inr \<theta>)"
    if "\<bar>fst (g x \<theta>)\<bar> \<le> thresh \<and> \<bar>snd (g x \<theta>)\<bar> \<le> thresh"
    by (subst NewtonRaphson.simps) (rule if_P[OF that])
  show "NewtonRaphson (g x) dg_dtheta \<theta> thresh =
        (case inv (dg_dtheta \<theta>) of
           Inl e \<Rightarrow> Some (Inl e)
         | Inr J \<Rightarrow> NewtonRaphson (g x) dg_dtheta
             (fst \<theta> - fst (dot J (g x \<theta>)), snd \<theta> - snd (dot J (g x \<theta>))) thresh)"
    if "\<not> (\<bar>fst (g x \<theta>)\<bar> \<le> thresh \<and> \<bar>snd (g x \<theta>)\<bar> \<le> thresh)"
    by (subst NewtonRaphson.simps) (rule if_not_P[OF that])
  show "\<bar>fst (g x \<theta>')\<bar> \<le> thresh" "\<bar>snd (g x \<theta>')\<bar> \<le> thresh"
    if "NewtonRaphson (g x) dg_dtheta \<theta> thresh = Some (Inr \<theta>')"
    using NewtonRaphson_returns[OF that] by simp_all
qed (rule dg_partials)+

lemma g_at_quarter: "g (2, 0) (0, pi / 4) = (1, 0)" "g (2, 0) (0, pi / 2) = (0, 0)"
  by (simp_all add: g_def f_def)

lemma inv_at_quarter: "inv (dg_dtheta (0, pi / 4)) = Inr ((0, - 3), (- pi / 4, 0))"
  by (simp add: dg_dtheta_def field_simps)

theorem NewtonRaphson_residual_jacobian_witness:
  "\<not> (\<bar>fst (g (2, 0) (0, pi / 4))\<bar> \<le> 1 / 1000 \<and> \<bar>snd (g (2, 0) (0, pi / 4))\<bar> \<le> 1 / 1000) \<and>
   \<bar>fst (g (2, 0) (0, pi / 2))\<bar> \<le> 1 / 1000 \<and> \<bar>snd (g (2, 0) (0, pi / 2))\<bar> \<le> 1 / 1000 \<and>
   NewtonRaphson (g (2, 0)) dg_dtheta (0, pi / 4) (1 / 1000) = Some (Inr (0, pi / 2))"
proof -
  have h1: "\<not> (\<bar>fst (g (2, 0) (0, pi / 4))\<bar> \<le> 1 / 1000 \<and> \<bar>snd (g (2, 0) (0, pi / 4))\<bar> \<le> 1 / 1000)"
    by (simp add: g_at_quarter)
  have h2: "\<bar>fst (g (2, 0) (0, pi / 2))\<bar> \<le> 1 / 1000 \<and> \<bar>snd (g (2, 0) (0, pi / 2))\<bar> \<le> 1 / 1000"
    by (simp add: g_at_quarter)
  have step: "NewtonRaphson (g (2, 0)) dg_dtheta (0, pi / 4) (1 / 1000) =
      NewtonRaphson (g (2, 0)) dg_dtheta (0, pi / 2) (1 / 1000)"
    using h1 NewtonRaphson_residual_jacobian[of "(2, 0)" 0 0 "(0, pi / 4)" "1 / 1000" "(0, 0)"]
    by (simp add: inv_at_quarter g_at_quarter)
  have stop: "NewtonRaphson (g (2, 0)) dg_dtheta (0, pi / 2) (1 / 1000) = Some (Inr (0, pi / 2))"
    using h2 NewtonRaphson_residual_jacobian[of "(2, 0)" 0 0 "(0, pi / 2)" "1 / 1000" "(0, 0)"]
    by simp
  show ?thesis using h1 h2 step stop by simp
qed

subsection \<open>The angles written to the motion-command file\<close>







lemma py_mod_wraps: "py_mod (- pi / 2) (2 * pi) = 3 * pi / 2" "py_mod (7 * pi / 2) (2 * pi) = 3 * pi / 2"
proof -
  have "\<lfloor>- (1 / 4) :: real\<rfloor> = - 1" "\<lfloor>7 / 4 :: real\<rfloor> = 1" by linarith+
  then show "py_mod (- pi / 2) (2 * pi) = 3 * pi / 2" "py_mod (7 * pi / 2) (2 * pi) = 3 * pi / 2"
    by (simp_all add: py_mod_def)
qed



section \<open>Properties of the motion coordination\<close>

lemmas task_defs = task_main_def dispatch_def fetch_def advance_def act_def
  S0_INIT_def S1_PLOT_def S2_DONE_def

lemma run_append:
  "run (xs @ ys) s = (case run xs s of Inl e \<Rightarrow> Inl e | Inr s' \<Rightarrow> run ys s')"
  by (induction xs arbitrary: s) (auto split: sum.splits)



lemma fetch_clears_update: "fetch s = Inr s' \<Longrightarrow> \<not> update s' \<and> step s' = step s \<and> pen_is_up s' = pen_is_up s"
  by (auto simp add: fetch_def act_def split: list.splits)

lemma dispatch_down_while_up:
  assumes "pen_CMD s = Some PD" and "pen_is_up s"
  shows "dispatch arr s =
           Inr (s\<lparr>pen_is_up := False,
                  trace := trace s @ [Pen_down, Set_target_pos Motor1 (m1_CMD s),
                                      Set_target_pos Motor2 (m2_CMD s)]\<rparr>)"
  using assms by (simp add: dispatch_def act_def)

subsection \<open>The scenario of two lines\<close>




subsection \<open>Pen down while the pen is up\<close>

text \<open>
  C10: a pass of \<open>task_main\<close> reaches the branch for \<open>'PD'\<close> with the pen flag up when it
  has just read a \<open>'PD'\<close> line while the flag is up. In that pass the pen is engaged, the
  flag is set to down and the targets of the line are issued; the branch changes neither
  \<open>step\<close> nor \<open>update\<close> (which the read has set to false), so no line is read in the
  next pass: it issues the same targets again by the branch for \<open>'PD'\<close> with the pen
  down, and \<open>step\<close> advances, and \<open>update\<close> is set, exactly when both motors report
  arrival.
\<close>

theorem down_while_up_frame:
  assumes "state s = S1_PLOT" and "step s < elements s - 1" and "pen_is_up s"
    and "update s" and "send s = c # rest" and "loc c = PD"
  shows "let sf = s\<lparr>update := False, send := rest, pen_CMD := Some PD,
                     m1_CMD := th1 c, m2_CMD := th2 c,
                     trace := trace s @ [Print ''Send coordinate updated'', Readline,
                                         Uart_write (xS c) (yS c) (th c)]\<rparr>;
             sd = sf\<lparr>pen_is_up := False,
                      trace := trace sf @ [Pen_down, Set_target_pos Motor1 (th1 c),
                                           Set_target_pos Motor2 (th2 c)]\<rparr>
         in fetch s = Inr sf \<and> dispatch arr sf = Inr sd \<and> task_main arr s = Inr sd \<and>
            step sd = step s \<and> update sd = update sf \<and> \<not> update sd \<and> \<not> pen_is_up sd \<and>
            task_main arr' sd =
              Inr (sd\<lparr>step := (if fst arr' \<and> snd arr' then step s + 1 else step s),
                      update := (fst arr' \<and> snd arr'),
                      trace := trace sd @
                        [Set_target_pos Motor1 (th1 c), Set_target_pos Motor2 (th2 c),
                         Arrived Motor1] @ (if fst arr' then [Arrived Motor2] else [])\<rparr>)"
  using assms by (cases arr') (auto simp add: task_defs Let_def)


theorem down_while_up_frame_witness:
  "map_sum id (\<lambda>s. (state s, step s, update s, pen_is_up s, send s, trace s))
     (run [(True, True), (True, True), (True, True)] (task_start [cmd_up, cmd_down, cmd_up])) =
   Inr (S1_PLOT, 1, False, False, [cmd_up],
     [Print ''Send coordinate updated'', Readline, Uart_write 1 1 (pi / 4),
      Pen_up, Set_target_pos Motor1 (3 * pi / 4), Set_target_pos Motor2 (sqrt 2 * pi / 4),
      Arrived Motor1, Arrived Motor2,
      Print ''Send coordinate updated'', Readline, Uart_write 0 0 0,
      Pen_down, Set_target_pos Motor1 0, Set_target_pos Motor2 0]) \<and>
   map_sum id (\<lambda>s. (state s, step s, update s, pen_is_up s, send s, trace s))
     (run [(True, True), (True, True), (True, True), (True, True)]
        (task_start [cmd_up, cmd_down, cmd_up])) =
   Inr (S1_PLOT, 2, True, False, [cmd_up],
     [Print ''Send coordinate updated'', Readline, Uart_write 1 1 (pi / 4),
      Pen_up, Set_target_pos Motor1 (3 * pi / 4), Set_target_pos Motor2 (sqrt 2 * pi / 4),
      Arrived Motor1, Arrived Motor2,
      Print ''Send coordinate updated'', Readline, Uart_write 0 0 0,
      Pen_down, Set_target_pos Motor1 0, Set_target_pos Motor2 0,
      Set_target_pos Motor1 0, Set_target_pos Motor2 0, Arrived Motor1, Arrived Motor2])"
proof -
  define sA where "sA = (task_start [cmd_up, cmd_down, cmd_up])
    \<lparr>state := S1_PLOT, step := 1, pen_is_up := True, update := True, send := [cmd_down, cmd_up],
     pen_CMD := Some PU, m1_CMD := 3 * pi / 4, m2_CMD := sqrt 2 * pi / 4,
     trace := [Print ''Send coordinate updated'', Readline, Uart_write 1 1 (pi / 4),
       Pen_up, Set_target_pos Motor1 (3 * pi / 4), Set_target_pos Motor2 (sqrt 2 * pi / 4),
       Arrived Motor1, Arrived Motor2]\<rparr>"
  have reach: "run [(True, True), (True, True)] (task_start [cmd_up, cmd_down, cmd_up]) = Inr sA"
    by (simp add: task_defs task_start_def cmd_up_def sA_def)
  have h: "state sA = S1_PLOT" "step sA < elements sA - 1" "pen_is_up sA" "update sA"
      "send sA = cmd_down # [cmd_up]" "loc cmd_down = PD"
    by (simp_all add: sA_def task_start_def cmd_down_def)
  note frame = down_while_up_frame[OF h, of "(True, True)" "(True, True)"]
  have three: "run [(True, True), (True, True), (True, True)] (task_start [cmd_up, cmd_down, cmd_up]) =
      task_main (True, True) sA"
    using run_append[of "[(True, True), (True, True)]" "[(True, True)]"] reach
    by (simp split: sum.splits)
  have four: "run [(True, True), (True, True), (True, True), (True, True)]
        (task_start [cmd_up, cmd_down, cmd_up]) =
      (case task_main (True, True) sA of Inl e \<Rightarrow> Inl e | Inr s' \<Rightarrow> task_main (True, True) s')"
    using run_append[of "[(True, True), (True, True)]" "[(True, True), (True, True)]"] reach
    by (simp split: sum.splits)
  show ?thesis
    unfolding three four using frame
    by (simp add: Let_def) (simp add: sA_def task_start_def cmd_down_def S1_PLOT_def)
qed


end
